theory Spec2Isabelle
  imports Main
begin

section \<open>Bytes, C strings and the allocator\<close>

text \<open>
  A byte is an \<open>unsigned char\<close>. A C string argument is modelled by the list of bytes
  that precede the terminating NUL the caller wrote; a buffer filled by \<open>getline\<close> may hold
  further NUL bytes inside, and every function that reads a \<open>char *\<close> stops at the first
  NUL, as the C code does.
\<close>

type_synonym byte = char

abbreviation NUL :: byte where "NUL \<equiv> CHR 0x00"
abbreviation LF :: byte where "LF \<equiv> CHR 0x0A"
abbreviation CR :: byte where "CR \<equiv> CHR 0x0D"
abbreviation DQUOTE :: byte where "DQUOTE \<equiv> CHR 0x22"
abbreviation COMMA :: byte where "COMMA \<equiv> CHR 0x2C"
abbreviation HASH :: byte where "HASH \<equiv> CHR 0x23"

text \<open>
  \<open>malloc\<close>, \<open>realloc\<close> and \<open>strdup\<close> may fail. The allocator is a parameter of the model:
  \<open>avail n\<close> tells whether a request for \<open>n\<close> bytes is granted (a request is judged
  by its size alone). Sizes of pointers and structs are those of an LP64 platform; they
  only ever reach \<open>avail\<close>. \<open>csv_row_td\<close> is a pointer and a \<open>size_t\<close>, 16 bytes;
  \<open>csv_parser_td\<close> is two pointers, a \<open>char\<close>, a \<open>bool\<close>, six bytes of padding, a
  \<open>size_t\<close> and a pointer, 40 bytes.
\<close>

type_synonym allocator = "nat \<Rightarrow> bool"

definition always :: allocator where
  "always n = True"

definition sizeof_ptr :: nat where
  "sizeof_ptr = 8"

definition sizeof_csv_row :: nat where
  "sizeof_csv_row = 16"

definition sizeof_csv_parser :: nat where
  "sizeof_csv_parser = 40"

text \<open>
  What the C standard leaves undefined and the model makes a value: a read through a null
  \<open>FILE *\<close>, and a store past the end of an allocated array. A function that can reach
  one returns \<open>ub + 'a\<close>, with \<open>Inl\<close> for the undefined behaviour.
\<close>

datatype ub = Null_stream | Write_past_end

definition strlen :: "string \<Rightarrow> nat" where
  "strlen s = length (takeWhile (\<lambda>c. c \<noteq> NUL) s)"

definition strdup :: "allocator \<Rightarrow> string \<Rightarrow> string option" where
  "strdup avail s =
     (if avail (strlen s + 1) then Some (takeWhile (\<lambda>c. c \<noteq> NUL) s) else None)"

text \<open>\<open>isspace\<close> in the C locale (the program never calls \<open>setlocale\<close>).\<close>

definition isspace :: "byte \<Rightarrow> bool" where
  "isspace c =
     (c = CHR 0x20 \<or> c = CHR 0x09 \<or> c = LF \<or> c = CHR 0x0B \<or> c = CHR 0x0C \<or> c = CR)"

section \<open>Skippable lines\<close>

text \<open>
  \<open>s_line_is_skippable\<close>: the loop \<open>while (*s && isspace(*s)) s++\<close>, then the test
  \<open>*s == '\0' || *s == '#'\<close>. The empty list is the position of the terminator.
\<close>

fun s_line_is_skippable :: "string \<Rightarrow> bool" where
  "s_line_is_skippable [] = True"
| "s_line_is_skippable (c # cs) =
     (if c \<noteq> NUL \<and> isspace c then s_line_is_skippable cs else (c = NUL \<or> c = HASH))"

section \<open>The field tokenizer\<close>

datatype st = ST_FIELD | ST_QUOTED_FIELD | ST_QUOTE_IN_QUOTED

text \<open>
  The locals of \<open>s_parse_line_to_row\<close> that the scan loop changes. \<open>fields_arr\<close> holds
  \<open>fields[0..fields_cnt)\<close>, each entry what \<open>strdup\<close> returned (\<open>None\<close> is a null pointer:
  the source stores the result unchecked); \<open>buf\<close> holds \<open>buf[0..buf_len)\<close>. The counters
  \<open>fields_cnt\<close> and \<open>buf_len\<close> are the lengths of the two lists. Capacities are \<open>size_t\<close>
  in the source and natural numbers here: a capacity doubles only when the line has
  filled it, so it never exceeds the larger of its initial value and twice the size of a
  line held in memory.
\<close>

record scanner =
  state :: st
  fields_arr :: "string option list"
  fields_cap :: nat
  buf :: string
  buf_cap :: nat

abbreviation fields_cnt :: "scanner \<Rightarrow> nat" where
  "fields_cnt s \<equiv> length (fields_arr s)"

abbreviation buf_len :: "scanner \<Rightarrow> nat" where
  "buf_len s \<equiv> length (buf s)"

text \<open>
  The struct \<open>csv_row_td\<close>; its member \<open>fields\<close> is \<open>row_fields\<close> here (the record
  package keeps the name \<open>fields\<close> for itself).
\<close>

record csv_row =
  row_fields :: "string option list"
  num_fields :: nat

text \<open>
  \<open>buf[buf_len] = '\0'; fields[fields_cnt++] = strdup(buf); buf_len = 0;\<close>
  The two stores are into arrays of \<open>buf_cap\<close> bytes and of \<open>fields_cap\<close> pointers.
\<close>

definition push_field :: "allocator \<Rightarrow> scanner \<Rightarrow> ub + scanner" where
  "push_field avail s =
     (if buf_cap s \<le> buf_len s then Inl Write_past_end
      else if fields_cap s \<le> fields_cnt s then Inl Write_past_end
      else Inr (s\<lparr>fields_arr := fields_arr s @ [strdup avail (buf s)], buf := []\<rparr>))"

text \<open>
  \<open>if (fields_cnt == fields_cap) { fields_cap *= 2; fields = realloc(...);
  if (fields == NULL) return NULL; }\<close>
\<close>

definition grow_fields :: "allocator \<Rightarrow> scanner \<Rightarrow> scanner option" where
  "grow_fields avail s =
     (if fields_cnt s = fields_cap s then
        (if avail (sizeof_ptr * (2 * fields_cap s))
         then Some (s\<lparr>fields_cap := 2 * fields_cap s\<rparr>) else None)
      else Some s)"

text \<open>
  A push followed by the capacity check, as the source has it at a delimiter (in
  \<open>ST_FIELD\<close> and in \<open>ST_QUOTE_IN_QUOTED\<close>) and before the \<open>continue\<close>. \<open>Inr None\<close> is
  the \<open>return NULL\<close> of a failed allocation.
\<close>

definition emit_field :: "allocator \<Rightarrow> scanner \<Rightarrow> ub + scanner option" where
  "emit_field avail s =
     (case push_field avail s of
        Inl e \<Rightarrow> Inl e
      | Inr s' \<Rightarrow> Inr (grow_fields avail s'))"

text \<open>
  \<open>if (buf_len + 1 >= buf_cap) { buf_cap *= 2; buf = realloc(buf, buf_cap);
  if (buf == NULL) return NULL; } buf[buf_len++] = c;\<close>
\<close>

definition append_byte :: "allocator \<Rightarrow> byte \<Rightarrow> scanner \<Rightarrow> ub + scanner option" where
  "append_byte avail c s =
     (if buf_len s + 1 \<ge> buf_cap s then
        (if avail (2 * buf_cap s) then
           (if 2 * buf_cap s \<le> buf_len s then Inl Write_past_end
            else Inr (Some (s\<lparr>buf := buf s @ [c], buf_cap := 2 * buf_cap s\<rparr>)))
         else Inr None)
      else Inr (Some (s\<lparr>buf := buf s @ [c]\<rparr>)))"

text \<open>
  How one pass through the body of the \<open>while (*p)\<close> loop ends: at \<open>p++\<close>, at the
  \<open>continue\<close> that re-processes the byte, at a \<open>break\<close>, at a \<open>return NULL\<close>, or in
  undefined behaviour.
\<close>

datatype flow =
  Step_on scanner | Continue scanner | Break scanner | Return_NULL | Undefined ub

definition on_success :: "ub + scanner option \<Rightarrow> (scanner \<Rightarrow> flow) \<Rightarrow> flow" where
  "on_success r k =
     (case r of
        Inl e \<Rightarrow> Undefined e
      | Inr None \<Rightarrow> Return_NULL
      | Inr (Some s) \<Rightarrow> k s)"

definition scan_step :: "allocator \<Rightarrow> byte \<Rightarrow> byte \<Rightarrow> scanner \<Rightarrow> flow" where
  "scan_step avail delim c s =
     (if state s = ST_FIELD then
        (if c = delim then on_success (emit_field avail s) Step_on
         else if c = DQUOTE then
           (if buf_len s = 0 then Step_on (s\<lparr>state := ST_QUOTED_FIELD\<rparr>)
            else on_success (append_byte avail c s) Step_on)
         else if c = CR \<or> c = LF then Break s
         else on_success (append_byte avail c s) Step_on)
      else if state s = ST_QUOTED_FIELD then
        (if c = DQUOTE then Step_on (s\<lparr>state := ST_QUOTE_IN_QUOTED\<rparr>)
         else on_success (append_byte avail c s) Step_on)
      else if state s = ST_QUOTE_IN_QUOTED then
        (if c = DQUOTE then
           on_success (append_byte avail DQUOTE s) (\<lambda>s'. Step_on (s'\<lparr>state := ST_QUOTED_FIELD\<rparr>))
         else if c = delim then
           on_success (emit_field avail s) (\<lambda>s'. Step_on (s'\<lparr>state := ST_FIELD\<rparr>))
         else if c = CR \<or> c = LF \<or> c = NUL then
           (case push_field avail s of
              Inl e \<Rightarrow> Undefined e
            | Inr s' \<Rightarrow> Break (s'\<lparr>state := ST_FIELD\<rparr>))
         else
           on_success (emit_field avail s) (\<lambda>s'. Continue (s'\<lparr>state := ST_FIELD\<rparr>)))
      else Step_on s)"

lemma scan_step_Continue:
  "scan_step avail delim c s = Continue s' \<Longrightarrow>
     state s = ST_QUOTE_IN_QUOTED \<and> state s' = ST_FIELD"
  by (auto simp: scan_step_def on_success_def split: if_splits sum.splits option.splits)

text \<open>
  The loop \<open>while (*p) { ...; p++; }\<close>. The list is what \<open>p\<close> points at: the empty
  list and a leading NUL both end the loop. \<open>Inr None\<close> is \<open>return NULL\<close>.
\<close>

function scan_loop :: "allocator \<Rightarrow> byte \<Rightarrow> string \<Rightarrow> scanner \<Rightarrow> ub + scanner option" where
  "scan_loop avail delim [] s = Inr (Some s)"
| "scan_loop avail delim (c # cs) s =
     (if c = NUL then Inr (Some s)
      else (case scan_step avail delim c s of
              Step_on s' \<Rightarrow> scan_loop avail delim cs s'
            | Continue s' \<Rightarrow> scan_loop avail delim (c # cs) s'
            | Break s' \<Rightarrow> Inr (Some s')
            | Return_NULL \<Rightarrow> Inr None
            | Undefined e \<Rightarrow> Inl e))"
  by pat_completeness auto
termination
  by (relation "measure (\<lambda>(avail, delim, p, s).
        2 * length p + (if state s = ST_QUOTE_IN_QUOTED then 1 else 0))")
     (auto dest: scan_step_Continue)

text \<open>
  \<open>s_parse_line_to_row\<close>: the two initial allocations, the scan loop, the push of the
  last field (both branches of the source's final \<open>if\<close> do the same), the shrinking
  \<open>realloc\<close> and the allocation of the row.
\<close>

definition s_parse_line_to_row :: "allocator \<Rightarrow> string \<Rightarrow> byte \<Rightarrow> ub + csv_row option" where
  "s_parse_line_to_row avail line delim =
     (if \<not> avail (sizeof_ptr * 8) then Inr None
      else if \<not> avail 128 then Inr None
      else (case scan_loop avail delim line
                   \<lparr>state = ST_FIELD, fields_arr = [], fields_cap = 8, buf = [], buf_cap = 128\<rparr> of
              Inl e \<Rightarrow> Inl e
            | Inr None \<Rightarrow> Inr None
            | Inr (Some s) \<Rightarrow>
                (case (if state s \<noteq> ST_QUOTED_FIELD then push_field avail s
                       else push_field avail s) of
                   Inl e \<Rightarrow> Inl e
                 | Inr s1 \<Rightarrow>
                     if fields_cnt s1 < fields_cap s1 \<and> \<not> avail (sizeof_ptr * fields_cnt s1)
                     then Inr None
                     else if \<not> avail sizeof_csv_row then Inr None
                     else Inr (Some \<lparr>row_fields = fields_arr s1, num_fields = fields_cnt s1\<rparr>))))"

text \<open>
  The same loop with a budget of iterations: \<open>scan_fuel n\<close> gives \<open>None\<close> when the loop
  is still running after \<open>n\<close> tests of its condition.
\<close>

fun scan_fuel ::
  "nat \<Rightarrow> allocator \<Rightarrow> byte \<Rightarrow> string \<Rightarrow> scanner \<Rightarrow> (ub + scanner option) option" where
  "scan_fuel 0 avail delim p s = None"
| "scan_fuel (Suc n) avail delim [] s = Some (Inr (Some s))"
| "scan_fuel (Suc n) avail delim (c # cs) s =
     (if c = NUL then Some (Inr (Some s))
      else (case scan_step avail delim c s of
              Step_on s' \<Rightarrow> scan_fuel n avail delim cs s'
            | Continue s' \<Rightarrow> scan_fuel n avail delim (c # cs) s'
            | Break s' \<Rightarrow> Some (Inr (Some s'))
            | Return_NULL \<Rightarrow> Some (Inr None)
            | Undefined e \<Rightarrow> Some (Inl e)))"

section \<open>The stream driver\<close>

text \<open>
  An open \<open>FILE *\<close> is the list of bytes not yet read; \<open>None\<close> is the null pointer.
  \<open>getline\<close> reads up to and including the next LF, or to the end of the stream, and
  returns \<open>-1\<close> (\<open>Inr None\<close>) when no byte is left. Its own buffer management belongs to
  the C library and is taken to succeed.
\<close>

definition getline :: "string option \<Rightarrow> ub + (string \<times> string) option" where
  "getline stream =
     (case stream of
        None \<Rightarrow> Inl Null_stream
      | Some bytes \<Rightarrow>
          if bytes = [] then Inr None
          else (case dropWhile (\<lambda>c. c \<noteq> LF) bytes of
                  [] \<Rightarrow> Inr (Some (bytes, []))
                | nl # rest \<Rightarrow> Inr (Some (takeWhile (\<lambda>c. c \<noteq> LF) bytes @ [nl], rest))))"

text \<open>
  \<open>if (len > 0 && line[len - 1] == '\n') { line[len - 1] = '\0'; len--;
  if (len > 0 && line[len - 1] == '\r') { line[len - 1] = '\0'; len--; } }\<close>
\<close>

definition strip_eol :: "string \<Rightarrow> string" where
  "strip_eol l =
     (if l \<noteq> [] \<and> last l = LF then
        (if butlast l \<noteq> [] \<and> last (butlast l) = CR then butlast (butlast l)
         else butlast l)
      else l)"

lemma getline_shorter:
  "getline (Some bytes) = Inr (Some (l, rest)) \<Longrightarrow> length rest < length bytes"
proof -
  assume a: "getline (Some bytes) = Inr (Some (l, rest))"
  have le: "length (dropWhile (\<lambda>c. c \<noteq> LF) bytes) \<le> length bytes"
    by (rule length_dropWhile_le)
  from a le show ?thesis
    by (auto simp: getline_def split: if_splits list.splits)
qed

text \<open>
  \<open>s_read_next_non_skippable_line\<close>: returns the line (\<open>None\<close> for \<open>-1\<close>), the stream and
  the line counter as the call leaves them.
\<close>

function s_read_next_non_skippable_line ::
  "string option \<Rightarrow> nat \<Rightarrow> ub + (string option \<times> string option \<times> nat)" where
  "s_read_next_non_skippable_line stream line_no =
     (case getline stream of
        Inl e \<Rightarrow> Inl e
      | Inr None \<Rightarrow> Inr (None, stream, line_no)
      | Inr (Some (l, rest)) \<Rightarrow>
          (if s_line_is_skippable (strip_eol l)
           then s_read_next_non_skippable_line (Some rest) (line_no + 1)
           else Inr (Some (strip_eol l), Some rest, line_no + 1)))"
  by pat_completeness auto
termination
proof (relation "measure (\<lambda>(stream, n). case stream of None \<Rightarrow> 0 | Some bytes \<Rightarrow> length bytes)")
  show "wf (measure (\<lambda>(stream, n). case stream of None \<Rightarrow> 0 | Some bytes \<Rightarrow> length bytes))"
    by simp
next
  fix stream :: "string option" and line_no :: nat and x2 x2a x1 rest
  assume g: "getline stream = Inr x2" "x2 = Some x2a" "(x1, rest) = x2a"
  then obtain bytes where s: "stream = Some bytes"
    by (cases stream) (auto simp: getline_def)
  with g have "length rest < length bytes"
    by (auto dest: getline_shorter)
  with s show "((Some rest, line_no + 1), (stream, line_no))
      \<in> measure (\<lambda>(stream, n). case stream of None \<Rightarrow> 0 | Some bytes \<Rightarrow> length bytes)"
    by simp
qed

declare s_read_next_non_skippable_line.simps [simp del]

text \<open>
  The file system is a parameter: a path either names a readable file with its contents
  or \<open>fopen\<close> returns \<open>NULL\<close>. A null path is taken to fail as well.
\<close>

type_synonym filesystem = "string \<Rightarrow> string option"

definition fopen :: "filesystem \<Rightarrow> string option \<Rightarrow> string option" where
  "fopen fs path = (case path of None \<Rightarrow> None | Some name \<Rightarrow> fs name)"

text \<open>The byte \<open>*s\<close> of a C string: its first byte, or the terminator.\<close>

definition deref :: "string \<Rightarrow> byte" where
  "deref s = (case s of [] \<Rightarrow> NUL | c # cs \<Rightarrow> c)"

text \<open>
  The struct \<open>csv_parser_td\<close>. The counter \<open>line_no\<close> is a \<open>size_t\<close> in the source and a
  natural number here: it counts lines of one file, whose size in bytes is an \<open>off_t\<close>
  and so below the range of \<open>size_t\<close>.
\<close>

record csv_parser_td =
  fp :: "string option"
  filename :: "string option"
  delim :: byte
  has_header :: bool
  line_no :: nat
  header :: "csv_row option"

text \<open>
  \<open>csv_parser_init\<close>. The delimiter is
  \<open>(delim && *delim == ',') ? ',' : (delim && *delim && *delim != '\n' && *delim != '\r'
  && *delim != '"') ? *delim : ','\<close>; the \<open>case\<close> is the test \<open>delim &&\<close> of both
  conditions.
\<close>

definition csv_parser_init ::
  "allocator \<Rightarrow> string option \<Rightarrow> string option \<Rightarrow> bool \<Rightarrow> csv_parser_td option" where
  "csv_parser_init avail name dl hh =
     (if \<not> avail sizeof_csv_parser then None
      else Some \<lparr>fp = None,
                 filename = (case name of None \<Rightarrow> None | Some n \<Rightarrow> strdup avail n),
                 delim =
                   (case dl of
                      None \<Rightarrow> COMMA
                    | Some s \<Rightarrow>
                        if deref s = COMMA then COMMA
                        else if deref s \<noteq> NUL \<and> deref s \<noteq> LF \<and> deref s \<noteq> CR
                                \<and> deref s \<noteq> DQUOTE
                        then deref s else COMMA),
                 has_header = hh,
                 line_no = 0,
                 header = None\<rparr>)"

text \<open>
  The calls that release a resource, in the order the program makes them.
\<close>

datatype effect = Free_string | Free_fields | Free_row | Free_parser | Fclose

definition csv_parser_destroy_row :: "csv_row option \<Rightarrow> effect list" where
  "csv_parser_destroy_row csv_row =
     (case csv_row of
        None \<Rightarrow> []
      | Some r \<Rightarrow> replicate (num_fields r) Free_string @ [Free_fields, Free_row])"

definition csv_parser_destroy :: "csv_parser_td option \<Rightarrow> effect list" where
  "csv_parser_destroy csv_parser =
     (case csv_parser of
        None \<Rightarrow> []
      | Some ps \<Rightarrow>
          (if filename ps \<noteq> None then [Free_string] else [])
          @ (if fp ps \<noteq> None then [Fclose] else [])
          @ (if header ps \<noteq> None then csv_parser_destroy_row (header ps) else [])
          @ [Free_parser])"

text \<open>
  \<open>csv_parser_header\<close> and \<open>csv_parser_row\<close> take a pointer to the parser: \<open>None\<close> is the
  null pointer, \<open>Some ps\<close> a pointer to a parser in state \<open>ps\<close>. They return the row
  pointer (\<open>None\<close> for \<open>NULL\<close>) and the state of the parser after the call.
  \<open>header_at\<close> and \<open>row_at\<close> are the two functions past the test \<open>csv_parser == NULL\<close>.
\<close>

definition header_at :: "allocator \<Rightarrow> csv_parser_td \<Rightarrow> ub + (csv_row option \<times> csv_parser_td)" where
  "header_at avail ps =
     (if \<not> has_header ps then Inr (None, ps)
      else if header ps \<noteq> None then Inr (header ps, ps)
      else (case s_read_next_non_skippable_line (fp ps) (line_no ps) of
              Inl e \<Rightarrow> Inl e
            | Inr (None, stream, n) \<Rightarrow> Inr (None, ps\<lparr>fp := stream, line_no := n\<rparr>)
            | Inr (Some line, stream, n) \<Rightarrow>
                (case s_parse_line_to_row avail line (delim ps) of
                   Inl e \<Rightarrow> Inl e
                 | Inr h \<Rightarrow> Inr (h, ps\<lparr>fp := stream, line_no := n, header := h\<rparr>))))"

definition csv_parser_header ::
  "allocator \<Rightarrow> csv_parser_td option \<Rightarrow> ub + (csv_row option \<times> csv_parser_td option)" where
  "csv_parser_header avail csv_parser =
     (case csv_parser of
        None \<Rightarrow> Inr (None, None)
      | Some ps \<Rightarrow>
          (case header_at avail ps of
             Inl e \<Rightarrow> Inl e
           | Inr (h, ps') \<Rightarrow> Inr (h, Some ps')))"

definition row_at ::
  "allocator \<Rightarrow> filesystem \<Rightarrow> csv_parser_td \<Rightarrow> ub + (csv_row option \<times> csv_parser_td)" where
  "row_at avail fs ps =
     (case (if fp ps = None then fopen fs (filename ps) else fp ps) of
        None \<Rightarrow> Inr (None, ps)
      | Some stream \<Rightarrow>
          (case (if has_header ps \<and> header ps = None
                 then header_at avail (ps\<lparr>fp := Some stream\<rparr>)
                 else Inr (None, ps\<lparr>fp := Some stream\<rparr>)) of
             Inl e \<Rightarrow> Inl e
           | Inr (h, ps1) \<Rightarrow>
               (case s_read_next_non_skippable_line (fp ps1) (line_no ps1) of
                  Inl e \<Rightarrow> Inl e
                | Inr (None, stream', n) \<Rightarrow> Inr (None, ps1\<lparr>fp := stream', line_no := n\<rparr>)
                | Inr (Some line, stream', n) \<Rightarrow>
                    (case s_parse_line_to_row avail line (delim ps1) of
                       Inl e \<Rightarrow> Inl e
                     | Inr r \<Rightarrow> Inr (r, ps1\<lparr>fp := stream', line_no := n\<rparr>)))))"

definition csv_parser_row ::
  "allocator \<Rightarrow> filesystem \<Rightarrow> csv_parser_td option
     \<Rightarrow> ub + (csv_row option \<times> csv_parser_td option)" where
  "csv_parser_row avail fs csv_parser =
     (case csv_parser of
        None \<Rightarrow> Inr (None, None)
      | Some ps \<Rightarrow>
          (case row_at avail fs ps of
             Inl e \<Rightarrow> Inl e
           | Inr (r, ps') \<Rightarrow> Inr (r, Some ps')))"

section \<open>What the specification compares the code with\<close>

text \<open>
  Splitting a line on the delimiter byte, with no notion of quoting: a delimiter starts
  a new field, any other byte joins the field that is being read.
\<close>

fun naive_split :: "byte \<Rightarrow> string \<Rightarrow> string list" where
  "naive_split d [] = [[]]"
| "naive_split d (c # cs) =
     (if c = d then [] # naive_split d cs
      else (c # hd (naive_split d cs)) # tl (naive_split d cs))"

text \<open>
  The number of physical lines of an input: one for each LF, and one more for bytes
  that follow the last LF.
\<close>

definition count_lines :: "string \<Rightarrow> nat" where
  "count_lines bytes =
     length (filter (\<lambda>c. c = LF) bytes) + (if bytes \<noteq> [] \<and> last bytes \<noteq> LF then 1 else 0)"

text \<open>
  The delimiter a configuration string stands for: a comma when the configuration is
  absent, empty, or starts with LF, CR, a double quote or NUL; its first byte otherwise.
\<close>

definition spec_delimiter :: "string option \<Rightarrow> byte" where
  "spec_delimiter dl =
     (case dl of
        None \<Rightarrow> COMMA
      | Some [] \<Rightarrow> COMMA
      | Some (c # rest) \<Rightarrow> if c \<in> {LF, CR, DQUOTE, NUL} then COMMA else c)"

section \<open>Notions the proofs use\<close>

text \<open>An allocator that grants every request.\<close>

definition grants_all :: "allocator \<Rightarrow> bool" where
  "grants_all avail = (\<forall>n. avail n)"

text \<open>
  The scanner has room for one more byte and one more field. It does at every test of
  the loop condition (\<open>in_bounds_start\<close>, \<open>in_bounds_step\<close>).
\<close>

definition in_bounds :: "scanner \<Rightarrow> bool" where
  "in_bounds s = (buf_len s < buf_cap s \<and> fields_cnt s < fields_cap s)"

text \<open>
  The bytes a parser has not read yet: those left in its stream, or the whole file when
  the stream is still to be opened.
\<close>

definition unread :: "filesystem \<Rightarrow> csv_parser_td \<Rightarrow> string" where
  "unread fs ps =
     (case fp ps of
        Some bytes \<Rightarrow> bytes
      | None \<Rightarrow> (case fopen fs (filename ps) of None \<Rightarrow> [] | Some bytes \<Rightarrow> bytes))"

definition remaining :: "filesystem \<Rightarrow> csv_parser_td \<Rightarrow> nat" where
  "remaining fs ps =
     (case fp ps of
        Some bytes \<Rightarrow> length bytes
      | None \<Rightarrow> (case fopen fs (filename ps) of None \<Rightarrow> 0 | Some bytes \<Rightarrow> Suc (length bytes)))"

text \<open>A file system that holds one file.\<close>

definition single_file :: "string \<Rightarrow> string \<Rightarrow> filesystem" where
  "single_file path bytes name = (if name = path then Some bytes else None)"

section \<open>Allocation and bounds in the tokenizer\<close>

lemma grants_all_always: "grants_all always"
  by (simp add: grants_all_def always_def)

lemma strdup_granted:
  "grants_all avail \<Longrightarrow> strdup avail b = Some (takeWhile (\<lambda>c. c \<noteq> NUL) b)"
  by (simp add: strdup_def grants_all_def)

lemma strdup_no_NUL:
  "grants_all avail \<Longrightarrow> NUL \<notin> set b \<Longrightarrow> strdup avail b = Some b"
  by (auto simp: strdup_def grants_all_def takeWhile_eq_all_conv)

lemma emit_field_granted:
  assumes "grants_all avail" and "in_bounds s"
  shows "\<exists>s'. emit_field avail s = Inr (Some s') \<and> in_bounds s' \<and> state s' = state s
           \<and> fields_arr s' = fields_arr s @ [strdup avail (buf s)] \<and> buf s' = []"
  using assms
  by (auto simp: emit_field_def push_field_def grow_fields_def in_bounds_def grants_all_def)

lemma append_byte_granted:
  assumes "grants_all avail" and "in_bounds s"
  shows "\<exists>s'. append_byte avail c s = Inr (Some s') \<and> in_bounds s' \<and> state s' = state s
           \<and> fields_arr s' = fields_arr s \<and> buf s' = buf s @ [c]"
  using assms
  by (auto simp: append_byte_def in_bounds_def grants_all_def)

lemma in_bounds_start:
  "in_bounds \<lparr>state = ST_FIELD, fields_arr = [], fields_cap = 8, buf = [], buf_cap = 128\<rparr>"
  by (simp add: in_bounds_def)

lemma in_bounds_step:
  "in_bounds s \<Longrightarrow> scan_step avail d c s = Step_on s' \<or> scan_step avail d c s = Continue s'
     \<Longrightarrow> in_bounds s'"
  by (auto simp: scan_step_def on_success_def emit_field_def push_field_def grow_fields_def
        append_byte_def in_bounds_def split: if_splits sum.splits option.splits)

lemma scan_step_not_NULL: "grants_all avail \<Longrightarrow> scan_step avail d c s \<noteq> Return_NULL"
  by (auto simp: scan_step_def on_success_def emit_field_def push_field_def grow_fields_def
        append_byte_def grants_all_def split: if_splits sum.splits option.splits)

lemma scan_loop_not_NULL: "grants_all avail \<Longrightarrow> scan_loop avail d p s \<noteq> Inr None"
proof (induction avail d p s rule: scan_loop.induct)
  case (1 avail delim s)
  then show ?case by simp
next
  case (2 avail delim c cs s)
  show ?case
  proof (cases "c = NUL")
    case True
    then show ?thesis by simp
  next
    case False
    show ?thesis
    proof (cases "scan_step avail delim c s")
      case (Step_on s')
      from "2.IH"(1) [OF False Step_on "2.prems"] False Step_on show ?thesis by simp
    next
      case (Continue s')
      from "2.IH"(2) [OF False Continue "2.prems"] False Continue show ?thesis by simp
    next
      case (Break s')
      with False show ?thesis by simp
    next
      case Return_NULL
      with scan_step_not_NULL [OF "2.prems", of delim c s] show ?thesis by simp
    next
      case (Undefined e)
      with False show ?thesis by simp
    qed
  qed
qed

lemma tokenizer_not_NULL: "grants_all avail \<Longrightarrow> s_parse_line_to_row avail line d \<noteq> Inr None"
  using scan_loop_not_NULL [of avail d line]
  by (auto simp: s_parse_line_to_row_def grants_all_def split: sum.splits option.splits)

section \<open>Physical lines and the line reader\<close>

lemma count_lines_Nil: "count_lines [] = 0"
  by (simp add: count_lines_def)

lemma count_lines_no_LF: "b \<noteq> [] \<Longrightarrow> LF \<notin> set b \<Longrightarrow> count_lines b = 1"
proof -
  assume a: "b \<noteq> []" "LF \<notin> set b"
  then have "last b \<noteq> LF" using last_in_set by metis
  moreover have "filter (\<lambda>c. c = LF) b = []" using a(2) by (induction b) auto
  ultimately show ?thesis using a(1) by (simp add: count_lines_def)
qed

lemma count_lines_split:
  "LF \<notin> set pre \<Longrightarrow> count_lines (pre @ LF # rest) = Suc (count_lines rest)"
proof -
  assume a: "LF \<notin> set pre"
  have "filter (\<lambda>c. c = LF) pre = []" using a by (induction pre) auto
  then show ?thesis by (simp add: count_lines_def)
qed

lemma getline_cases:
  "getline (Some b) = Inr None \<and> b = []
   \<or> (\<exists>l rest. getline (Some b) = Inr (Some (l, rest))
         \<and> count_lines b = Suc (count_lines rest) \<and> length rest < length b)"
proof (cases "b = []")
  case True
  then show ?thesis by (simp add: getline_def)
next
  case False
  show ?thesis
  proof (cases "dropWhile (\<lambda>c. c \<noteq> LF) b")
    case Nil
    then have "LF \<notin> set b" by (auto simp: dropWhile_eq_Nil_conv)
    with False have "count_lines b = 1" by (rule count_lines_no_LF)
    moreover have "getline (Some b) = Inr (Some (b, []))"
      by (simp add: getline_def Nil False)
    ultimately show ?thesis using False by (simp add: count_lines_Nil)
  next
    case (Cons nl rest)
    then have nl: "nl = LF" using hd_dropWhile [of "\<lambda>c. c \<noteq> LF" b] by auto
    have b: "b = takeWhile (\<lambda>c. c \<noteq> LF) b @ LF # rest"
      using takeWhile_dropWhile_id [of "\<lambda>c. c \<noteq> LF" b] Cons nl by simp
    have "LF \<notin> set (takeWhile (\<lambda>c. c \<noteq> LF) b)"
      by (auto dest: set_takeWhileD)
    then have "count_lines (takeWhile (\<lambda>c. c \<noteq> LF) b @ LF # rest) = Suc (count_lines rest)"
      by (rule count_lines_split)
    with b have c: "count_lines b = Suc (count_lines rest)" by simp
    have "length b = length (takeWhile (\<lambda>c. c \<noteq> LF) b) + Suc (length rest)"
      using arg_cong [OF b, of length] by simp
    then have "length rest < length b" by simp
    moreover have "getline (Some b) = Inr (Some (takeWhile (\<lambda>c. c \<noteq> LF) b @ [nl], rest))"
      by (simp add: getline_def Cons False)
    ultimately show ?thesis using c by simp
  qed
qed

lemma sread_account:
  "stream = Some b \<Longrightarrow>
   \<exists>l b' n'. s_read_next_non_skippable_line stream n = Inr (l, Some b', n')
      \<and> n' + count_lines b' = n + count_lines b
      \<and> length b' \<le> length b \<and> (l \<noteq> None \<longrightarrow> length b' < length b)
      \<and> (l = None \<longrightarrow> b' = []) \<and> n \<le> n'"
proof (induction stream n arbitrary: b rule: s_read_next_non_skippable_line.induct)
  case (1 stream line_no)
  from getline_cases [of b] show ?case
  proof
    assume "getline (Some b) = Inr None \<and> b = []"
    then have "getline stream = Inr None" and "b = []" and "stream = Some []"
      using "1.prems" by auto
    then show ?thesis
      by (subst s_read_next_non_skippable_line.simps) (simp add: count_lines_Nil)
  next
    assume "\<exists>l rest. getline (Some b) = Inr (Some (l, rest))
         \<and> count_lines b = Suc (count_lines rest) \<and> length rest < length b"
    then obtain l rest where g: "getline (Some b) = Inr (Some (l, rest))"
      "count_lines b = Suc (count_lines rest)" "length rest < length b"
      by blast
    show ?thesis
    proof (cases "s_line_is_skippable (strip_eol l)")
      case True
      have "\<exists>l' b' n'. s_read_next_non_skippable_line (Some rest) (line_no + 1) = Inr (l', Some b', n')
          \<and> n' + count_lines b' = line_no + 1 + count_lines rest
          \<and> length b' \<le> length rest \<and> (l' \<noteq> None \<longrightarrow> length b' < length rest)
          \<and> (l' = None \<longrightarrow> b' = []) \<and> line_no + 1 \<le> n'"
        using "1.IH" [of "Some (l, rest)" "(l, rest)" l rest rest] g(1) "1.prems" True by simp
      then obtain l' b' n' where r: "s_read_next_non_skippable_line (Some rest) (line_no + 1) = Inr (l', Some b', n')"
          "n' + count_lines b' = line_no + 1 + count_lines rest"
          "length b' \<le> length rest" "l' \<noteq> None \<longrightarrow> length b' < length rest"
          "l' = None \<longrightarrow> b' = []" "line_no + 1 \<le> n'"
        by blast
      have "s_read_next_non_skippable_line stream line_no = Inr (l', Some b', n')"
        using "1.prems" g(1) True r(1)
        by (subst s_read_next_non_skippable_line.simps) simp
      moreover have "n' + count_lines b' = line_no + count_lines b" using r(2) g(2) by simp
      moreover have "length b' \<le> length b" using r(3) g(3) by simp
      moreover have "l' \<noteq> None \<longrightarrow> length b' < length b" using r(3) g(3) by simp
      moreover have "line_no \<le> n'" using r(6) by simp
      ultimately show ?thesis using r(5) by blast
    next
      case False
      have "s_read_next_non_skippable_line stream line_no
          = Inr (Some (strip_eol l), Some rest, line_no + 1)"
        using "1.prems" g(1) False
        by (subst s_read_next_non_skippable_line.simps) simp
      then show ?thesis using g(2,3) by simp
    qed
  qed
qed

lemma header_at_open:
  assumes "fp ps = Some b" and "header_at avail ps = Inr (h, ps1)"
  shows "\<exists>b1. fp ps1 = Some b1 \<and> length b1 \<le> length b
           \<and> line_no ps1 + count_lines b1 = line_no ps + count_lines b
           \<and> filename ps1 = filename ps \<and> line_no ps \<le> line_no ps1"
proof -
  from sread_account [OF assms(1), of "line_no ps"] obtain l b' n' where
    r: "s_read_next_non_skippable_line (fp ps) (line_no ps) = Inr (l, Some b', n')"
      "n' + count_lines b' = line_no ps + count_lines b" "length b' \<le> length b"
      "line_no ps \<le> n'"
    by blast
  from assms r show ?thesis
    by (auto simp: header_at_def split: if_splits option.splits sum.splits)
qed

lemma row_at_facts:
  assumes "row_at avail fs ps = Inr (r, ps')"
  shows "line_no ps' + count_lines (unread fs ps') = line_no ps + count_lines (unread fs ps)
       \<and> filename ps' = filename ps \<and> line_no ps \<le> line_no ps'
       \<and> (r \<noteq> None \<longrightarrow> remaining fs ps' < remaining fs ps)
       \<and> (grants_all avail \<longrightarrow> r = None \<longrightarrow> unread fs ps' = [])"
proof (cases "if fp ps = None then fopen fs (filename ps) else fp ps")
  case None
  then have "fp ps = None" "fopen fs (filename ps) = None"
    by (auto split: if_splits)
  moreover from None assms have "r = None" "ps' = ps"
    by (auto simp: row_at_def)
  ultimately show ?thesis by (simp add: unread_def)
next
  case (Some b0)
  let ?psA = "ps\<lparr>fp := Some b0\<rparr>"
  let ?H = "if has_header ps \<and> header ps = None then header_at avail ?psA else Inr (None, ?psA)"
  have u0: "unread fs ps = b0" and r0: "length b0 \<le> remaining fs ps"
    using Some by (auto simp: unread_def remaining_def split: if_splits option.splits)
  from assms Some obtain h ps1 where H: "?H = Inr (h, ps1)"
    by (cases ?H) (auto simp: row_at_def)
  have "\<exists>b1. fp ps1 = Some b1 \<and> length b1 \<le> length b0
           \<and> line_no ps1 + count_lines b1 = line_no ?psA + count_lines b0
           \<and> filename ps1 = filename ?psA \<and> line_no ?psA \<le> line_no ps1"
  proof (cases "has_header ps \<and> header ps = None")
    case True
    with H have "header_at avail ?psA = Inr (h, ps1)" by simp
    then show ?thesis by (intro header_at_open) simp_all
  next
    case False
    with H show ?thesis by auto
  qed
  then obtain b1 where b1: "fp ps1 = Some b1" "length b1 \<le> length b0"
      "line_no ps1 + count_lines b1 = line_no ps + count_lines b0"
      "filename ps1 = filename ps" "line_no ps \<le> line_no ps1"
    by auto
  from sread_account [OF b1(1), of "line_no ps1"] obtain l b2 n2 where
    R: "s_read_next_non_skippable_line (fp ps1) (line_no ps1) = Inr (l, Some b2, n2)"
      "n2 + count_lines b2 = line_no ps1 + count_lines b1" "length b2 \<le> length b1"
      "l \<noteq> None \<longrightarrow> length b2 < length b1" "l = None \<longrightarrow> b2 = []"
      "line_no ps1 \<le> n2"
    by blast
  have res: "(case l of None \<Rightarrow> Inr (None, ps1\<lparr>fp := Some b2, line_no := n2\<rparr>)
              | Some line \<Rightarrow>
                  (case s_parse_line_to_row avail line (delim ps1) of
                     Inl e \<Rightarrow> Inl e
                   | Inr r \<Rightarrow> Inr (r, ps1\<lparr>fp := Some b2, line_no := n2\<rparr>))) = Inr (r, ps')"
    using assms Some H R(1) by (cases l) (simp_all add: row_at_def)
  have ps': "ps' = ps1\<lparr>fp := Some b2, line_no := n2\<rparr>"
    using res by (auto split: option.splits sum.splits)
  have a: "line_no ps' + count_lines (unread fs ps') = line_no ps + count_lines (unread fs ps)"
    using ps' R(2) b1(3) u0 by (simp add: unread_def)
  have b: "filename ps' = filename ps \<and> line_no ps \<le> line_no ps'"
    using ps' b1(4,5) R(6) by simp
  have c: "r \<noteq> None \<longrightarrow> remaining fs ps' < remaining fs ps"
  proof
    assume "r \<noteq> None"
    with res have "l \<noteq> None" by (auto split: option.splits)
    with R(4) have "length b2 < length b1" by simp
    with b1(2) r0 show "remaining fs ps' < remaining fs ps"
      using ps' by (simp add: remaining_def)
  qed
  have d: "grants_all avail \<longrightarrow> r = None \<longrightarrow> unread fs ps' = []"
  proof (intro impI)
    assume av: "grants_all avail" and "r = None"
    with res have "l = None"
      using tokenizer_not_NULL [OF av]
      by (cases l) (auto split: sum.splits)
    with R(5) ps' show "unread fs ps' = []" by (simp add: unread_def)
  qed
  from a b c d show ?thesis by blast
qed

lemma row_at_consumes:
  "row_at avail fs ps = Inr (Some row, ps') \<Longrightarrow> remaining fs ps' < remaining fs ps"
  using row_at_facts [of avail fs ps "Some row" ps'] by simp

section \<open>The consumer's loop\<close>

text \<open>
  The loop of \<open>main\<close>: \<open>while ((row = csv_parser_row(csvparser))) { ... }\<close>, on a parser
  that \<open>csv_parser_init\<close> returned. It gives the rows in the order they came and the
  parser as the loop leaves it.
\<close>

function drain :: "allocator \<Rightarrow> filesystem \<Rightarrow> csv_parser_td \<Rightarrow> ub + (csv_row list \<times> csv_parser_td)" where
  "drain avail fs ps =
     (case row_at avail fs ps of
        Inl e \<Rightarrow> Inl e
      | Inr (None, ps') \<Rightarrow> Inr ([], ps')
      | Inr (Some row, ps') \<Rightarrow>
          (case drain avail fs ps' of
             Inl e \<Rightarrow> Inl e
           | Inr (rows, ps'') \<Rightarrow> Inr (row # rows, ps'')))"
  by pat_completeness auto
termination
  by (relation "measure (\<lambda>(avail, fs, ps). remaining fs ps)")
     (auto dest: row_at_consumes)

declare drain.simps [simp del]

lemma drain_account:
  "grants_all avail \<Longrightarrow> drain avail fs ps = Inr (rows, ps') \<Longrightarrow>
     line_no ps' = line_no ps + count_lines (unread fs ps) \<and> unread fs ps' = []"
proof (induction avail fs ps arbitrary: rows ps' rule: drain.induct)
  case (1 avail fs ps)
  show ?case
  proof (cases "row_at avail fs ps")
    case (Inl e)
    with "1.prems"(2) show ?thesis by (simp add: drain.simps [of avail fs ps])
  next
    case (Inr a)
    obtain r ps1 where a: "a = (r, ps1)" by (cases a)
    note f = row_at_facts [OF Inr [unfolded a]]
    show ?thesis
    proof (cases r)
      case None
      with Inr a "1.prems"(2) have "ps' = ps1"
        by (simp add: drain.simps [of avail fs ps])
      with f None "1.prems"(1) show ?thesis by (auto simp: count_lines_Nil)
    next
      case (Some row)
      with Inr a "1.prems"(2) obtain rows' where
        d: "drain avail fs ps1 = Inr (rows', ps')"
        by (auto simp: drain.simps [of avail fs ps] split: sum.splits)
      from "1.IH" [OF Inr a [symmetric] Some "1.prems"(1) d] f
      show ?thesis by simp
    qed
  qed
qed

section \<open>The scan loop\<close>

lemma scan_fuel_enough:
  "2 * length p + (if state s = ST_QUOTE_IN_QUOTED then 1 else 0) < n \<Longrightarrow>
     scan_fuel n avail d p s = Some (scan_loop avail d p s)"
proof (induction avail d p s arbitrary: n rule: scan_loop.induct)
  case (1 avail delim s)
  then obtain m where "n = Suc m" by (cases n) auto
  then show ?case by simp
next
  case (2 avail delim c cs s)
  from "2.prems" obtain m where n: "n = Suc m" by (cases n) auto
  show ?case
  proof (cases "c = NUL")
    case True
    with n show ?thesis by simp
  next
    case False
    show ?thesis
    proof (cases "scan_step avail delim c s")
      case (Step_on s')
      have "2 * length cs + (if state s' = ST_QUOTE_IN_QUOTED then 1 else 0) < m"
        using "2.prems" n by (simp split: if_splits)
      then have "scan_fuel m avail delim cs s' = Some (scan_loop avail delim cs s')"
        using "2.IH"(1) False Step_on by blast
      with False Step_on n show ?thesis by simp
    next
      case (Continue s')
      then have "state s = ST_QUOTE_IN_QUOTED" "state s' = ST_FIELD"
        by (auto dest: scan_step_Continue)
      then have "2 * length (c # cs) + (if state s' = ST_QUOTE_IN_QUOTED then 1 else 0) < m"
        using "2.prems" n by simp
      then have "scan_fuel m avail delim (c # cs) s' = Some (scan_loop avail delim (c # cs) s')"
        using "2.IH"(2) False Continue by blast
      with False Continue n show ?thesis by simp
    next
      case (Break s')
      with False n show ?thesis by simp
    next
      case Return_NULL
      with False n show ?thesis by simp
    next
      case (Undefined e)
      with False n show ?thesis by simp
    qed
  qed
qed

lemma naive_split_no_delim: "d \<notin> set b \<Longrightarrow> naive_split d b = [b]"
  by (induction b) auto

lemma naive_split_at_delim:
  "d \<notin> set b \<Longrightarrow> naive_split d (b @ d # cs) = b # naive_split d cs"
  by (induction b) auto

lemma scan_unquoted:
  assumes "grants_all avail"
  shows "state s = ST_FIELD \<Longrightarrow> in_bounds s \<Longrightarrow> d \<notin> set (buf s) \<Longrightarrow> NUL \<notin> set (buf s) \<Longrightarrow>
     DQUOTE \<notin> set p \<Longrightarrow> CR \<notin> set p \<Longrightarrow> LF \<notin> set p \<Longrightarrow> NUL \<notin> set p \<Longrightarrow>
     \<exists>s'. scan_loop avail d p s = Inr (Some s') \<and> in_bounds s' \<and> NUL \<notin> set (buf s')
        \<and> fields_arr s' @ [Some (buf s')] = fields_arr s @ map Some (naive_split d (buf s @ p))"
proof (induction p arbitrary: s)
  case Nil
  then show ?case by (simp add: naive_split_no_delim)
next
  case (Cons c cs)
  have c: "c \<noteq> DQUOTE" "c \<noteq> CR" "c \<noteq> LF" "c \<noteq> NUL"
    using Cons.prems by auto
  have rest: "DQUOTE \<notin> set cs" "CR \<notin> set cs" "LF \<notin> set cs" "NUL \<notin> set cs"
    using Cons.prems by auto
  show ?case
  proof (cases "c = d")
    case True
    from emit_field_granted [OF assms Cons.prems(2)] obtain s1 where
      s1: "emit_field avail s = Inr (Some s1)" "in_bounds s1" "state s1 = state s"
        "fields_arr s1 = fields_arr s @ [strdup avail (buf s)]" "buf s1 = []"
      by blast
    have step: "scan_step avail d c s = Step_on s1"
      using True Cons.prems(1) s1(1) by (simp add: scan_step_def on_success_def)
    have "\<exists>s'. scan_loop avail d cs s1 = Inr (Some s') \<and> in_bounds s' \<and> NUL \<notin> set (buf s')
        \<and> fields_arr s' @ [Some (buf s')] = fields_arr s1 @ map Some (naive_split d (buf s1 @ cs))"
      using Cons.IH [of s1] rest s1 Cons.prems(1) by simp
    then obtain s' where s': "scan_loop avail d cs s1 = Inr (Some s')" "in_bounds s'"
        "NUL \<notin> set (buf s')"
        "fields_arr s' @ [Some (buf s')] = fields_arr s1 @ map Some (naive_split d (buf s1 @ cs))"
      by blast
    have "strdup avail (buf s) = Some (buf s)"
      using assms Cons.prems(4) by (rule strdup_no_NUL)
    then have "fields_arr s' @ [Some (buf s')]
        = fields_arr s @ map Some (naive_split d (buf s @ c # cs))"
      using s'(4) s1(4,5) True Cons.prems(3) by (simp add: naive_split_at_delim)
    moreover have "scan_loop avail d (c # cs) s = Inr (Some s')"
      using step s'(1) c by simp
    ultimately show ?thesis using s'(2,3) by blast
  next
    case False
    from append_byte_granted [OF assms Cons.prems(2)] obtain s1 where
      s1: "append_byte avail c s = Inr (Some s1)" "in_bounds s1" "state s1 = state s"
        "fields_arr s1 = fields_arr s" "buf s1 = buf s @ [c]"
      by blast
    have step: "scan_step avail d c s = Step_on s1"
      using False c Cons.prems(1) s1(1) by (simp add: scan_step_def on_success_def)
    have "\<exists>s'. scan_loop avail d cs s1 = Inr (Some s') \<and> in_bounds s' \<and> NUL \<notin> set (buf s')
        \<and> fields_arr s' @ [Some (buf s')] = fields_arr s1 @ map Some (naive_split d (buf s1 @ cs))"
      using Cons.IH [of s1] Cons.prems(1,3,4) rest s1 c False by simp
    then obtain s' where s': "scan_loop avail d cs s1 = Inr (Some s')" "in_bounds s'"
        "NUL \<notin> set (buf s')"
        "fields_arr s' @ [Some (buf s')] = fields_arr s1 @ map Some (naive_split d (buf s1 @ cs))"
      by blast
    have "fields_arr s' @ [Some (buf s')]
        = fields_arr s @ map Some (naive_split d (buf s @ c # cs))"
      using s'(4) s1(4,5) by simp
    moreover have "scan_loop avail d (c # cs) s = Inr (Some s')"
      using step s'(1) c by simp
    ultimately show ?thesis using s'(2,3) by blast
  qed
qed

section \<open>What the tokenizer returns\<close>

lemmas tok_defs = s_parse_line_to_row_def scan_step_def on_success_def emit_field_def push_field_def
  grow_fields_def append_byte_def strdup_def strlen_def always_def sizeof_ptr_def
  sizeof_csv_row_def

lemmas drv_defs = csv_parser_init_def csv_parser_row_def row_at_def header_at_def
  csv_parser_header_def getline_def strip_eol_def isspace_def fopen_def single_file_def
  sizeof_csv_parser_def deref_def s_read_next_non_skippable_line.simps drain.simps

lemma tokenizer_row_nonempty:
  "s_parse_line_to_row avail line d = Inr (Some row) \<Longrightarrow>
     1 \<le> num_fields row \<and> num_fields row = length (row_fields row)"
  by (auto simp: s_parse_line_to_row_def push_field_def
        split: if_splits sum.splits option.splits)

lemma scan_step_without_eol:
  assumes "grants_all avail" and "in_bounds s" and "c \<noteq> CR" and "c \<noteq> LF" and "c \<noteq> NUL"
  shows "\<exists>s'. (scan_step avail d c s = Step_on s' \<or> scan_step avail d c s = Continue s')
           \<and> in_bounds s'"
proof -
  from emit_field_granted [OF assms(1,2)] obtain s1 where
    s1: "emit_field avail s = Inr (Some s1)" "in_bounds s1" by blast
  from append_byte_granted [OF assms(1,2), of c] obtain s2 where
    s2: "append_byte avail c s = Inr (Some s2)" "in_bounds s2" by blast
  from append_byte_granted [OF assms(1,2), of DQUOTE] obtain s3 where
    s3: "append_byte avail DQUOTE s = Inr (Some s3)" "in_bounds s3" by blast
  have "\<exists>s'. scan_step avail d c s = Step_on s' \<or> scan_step avail d c s = Continue s'"
    using s1(1) s2(1) s3(1) assms(3-5)
    by (cases "state s") (auto simp: scan_step_def on_success_def)
  then show ?thesis using in_bounds_step [OF assms(2)] by blast
qed

lemma scan_loop_without_eol:
  "grants_all avail \<Longrightarrow> in_bounds s \<Longrightarrow> CR \<notin> set p \<Longrightarrow> LF \<notin> set p \<Longrightarrow>
     \<exists>s'. scan_loop avail d p s = Inr (Some s') \<and> in_bounds s'"
proof (induction avail d p s rule: scan_loop.induct)
  case (1 avail delim s)
  then show ?case by simp
next
  case (2 avail delim c cs s)
  show ?case
  proof (cases "c = NUL")
    case True
    with "2.prems"(2) show ?thesis by simp
  next
    case False
    have c: "c \<noteq> CR" "c \<noteq> LF" and cs: "CR \<notin> set cs" "LF \<notin> set cs"
      using "2.prems"(3,4) by auto
    from scan_step_without_eol [OF "2.prems"(1,2) c False, of delim] obtain s1 where
      s1: "scan_step avail delim c s = Step_on s1 \<or> scan_step avail delim c s = Continue s1"
        "in_bounds s1" by blast
    from s1(1) show ?thesis
    proof
      assume st: "scan_step avail delim c s = Step_on s1"
      from "2.IH"(1) [OF False st "2.prems"(1) s1(2) cs] st False show ?thesis by simp
    next
      assume st: "scan_step avail delim c s = Continue s1"
      from "2.IH"(2) [OF False st "2.prems"(1) s1(2) "2.prems"(3,4)] st False
      show ?thesis by simp
    qed
  qed
qed

lemma tokenizer_total_without_eol:
  assumes "grants_all avail" and "CR \<notin> set line" and "LF \<notin> set line"
  shows "\<exists>row. s_parse_line_to_row avail line d = Inr (Some row)"
proof -
  from scan_loop_without_eol [OF assms(1) in_bounds_start assms(2,3), of d] obtain s' where
    s': "scan_loop avail d line
           \<lparr>state = ST_FIELD, fields_arr = [], fields_cap = 8, buf = [], buf_cap = 128\<rparr>
         = Inr (Some s')" "in_bounds s'" by blast
  then show ?thesis
    using assms(1) by (simp add: s_parse_line_to_row_def push_field_def in_bounds_def grants_all_def)
qed

lemma scan_quoted_body:
  assumes "grants_all avail"
  shows "state s = ST_QUOTED_FIELD \<Longrightarrow> in_bounds s \<Longrightarrow> DQUOTE \<notin> set p \<Longrightarrow> NUL \<notin> set p \<Longrightarrow>
     \<exists>s'. scan_loop avail d p s = Inr (Some s') \<and> in_bounds s' \<and> state s' = ST_QUOTED_FIELD
        \<and> buf s' = buf s @ p \<and> fields_arr s' = fields_arr s"
proof (induction p arbitrary: s)
  case Nil
  then show ?case by simp
next
  case (Cons c cs)
  have c: "c \<noteq> DQUOTE" "c \<noteq> NUL" and cs: "DQUOTE \<notin> set cs" "NUL \<notin> set cs"
    using Cons.prems(3,4) by auto
  from append_byte_granted [OF assms Cons.prems(2), of c] obtain s1 where
    s1: "append_byte avail c s = Inr (Some s1)" "in_bounds s1" "state s1 = state s"
      "fields_arr s1 = fields_arr s" "buf s1 = buf s @ [c]"
    by blast
  have step: "scan_step avail d c s = Step_on s1"
    using c Cons.prems(1) s1(1) by (simp add: scan_step_def on_success_def)
  from Cons.IH [of s1] s1 Cons.prems(1) cs obtain s' where
    s': "scan_loop avail d cs s1 = Inr (Some s')" "in_bounds s'" "state s' = ST_QUOTED_FIELD"
      "buf s' = buf s1 @ cs" "fields_arr s' = fields_arr s1"
    by auto
  have "scan_loop avail d (c # cs) s = Inr (Some s')"
    using step s'(1) c by simp
  then show ?case using s' s1(4,5) by simp
qed

lemma unterminated_quote_lenient:
  assumes "grants_all avail" and "d \<noteq> DQUOTE" and "DQUOTE \<notin> set body" and "NUL \<notin> set body"
  shows "s_parse_line_to_row avail (DQUOTE # body) d =
           Inr (Some \<lparr>row_fields = [Some body], num_fields = 1\<rparr>)"
proof -
  let ?s0 = "\<lparr>state = ST_FIELD, fields_arr = [], fields_cap = 8, buf = [], buf_cap = 128\<rparr>"
  let ?s1 = "?s0\<lparr>state := ST_QUOTED_FIELD\<rparr>"
  have first: "scan_loop avail d (DQUOTE # body) ?s0 = scan_loop avail d body ?s1"
    using assms(2) by (simp add: scan_step_def)
  have "\<exists>s'. scan_loop avail d body ?s1 = Inr (Some s') \<and> in_bounds s'
      \<and> state s' = ST_QUOTED_FIELD \<and> buf s' = buf ?s1 @ body \<and> fields_arr s' = fields_arr ?s1"
    using assms(3,4) by (intro scan_quoted_body [OF assms(1)]) (simp_all add: in_bounds_def)
  then obtain s' where s': "scan_loop avail d body ?s1 = Inr (Some s')" "in_bounds s'"
      "buf s' = body" "fields_arr s' = []"
    by auto
  have dup: "strdup avail body = Some body"
    using assms(1,4) by (rule strdup_no_NUL)
  have push: "push_field avail s' = Inr (s'\<lparr>fields_arr := [Some body], buf := []\<rparr>)"
    using s'(2,3,4) dup by (simp add: push_field_def in_bounds_def)
  show ?thesis
    using assms(1) first s'(1) push
    by (simp add: s_parse_line_to_row_def grants_all_def del: scan_loop.simps)
qed

section \<open>The claims\<close>

text \<open>
  C1. The specification: for a parser whose input handle is not yet open and whose
  \<open>has_header\<close> flag is set, \<open>Header\<close> opens the handle, reads the first non-skippable
  line, tokenizes, caches and returns it, also when it is called before any \<open>NextRow\<close>.
  The code: \<open>csv_parser_header\<close> hands \<open>csv_parser->fp\<close> to the line reader as it is;
  only \<open>csv_parser_row\<close> calls \<open>fopen\<close>. On a parser fresh from \<open>csv_parser_init\<close> the
  line reader is given the null stream (\<open>header_at_unopened\<close>), where after a first
  \<open>csv_parser_row\<close> the header is returned (\<open>header_after_row_example\<close>).
\<close>

lemma header_at_unopened:
  "fp ps = None \<Longrightarrow> has_header ps \<Longrightarrow> header ps = None \<Longrightarrow>
     header_at avail ps = Inl Null_stream"
  by (simp add: header_at_def s_read_next_non_skippable_line.simps getline_def)

lemma header_after_row_example:
  "(case csv_parser_row always (single_file ''data.csv'' (''name,age'' @ [LF] @ ''Alice,30'' @ [LF]))
           (csv_parser_init always (Some ''data.csv'') (Some '','') True) of
      Inl e \<Rightarrow> False
    | Inr (r, p) \<Rightarrow>
        r = Some \<lparr>row_fields = [Some ''Alice'', Some ''30''], num_fields = 2\<rparr>
        \<and> csv_parser_header always p
            = Inr (Some \<lparr>row_fields = [Some ''name'', Some ''age''], num_fields = 2\<rparr>, p))"
  by (simp add: tok_defs drv_defs)

theorem header_before_row_reads_null_stream:
  "csv_parser_header always (csv_parser_init always (Some ''data.csv'') (Some '','') True)
     = Inl Null_stream"
  by (simp add: tok_defs drv_defs)

text \<open>
  C2. The specification: for every line and every valid delimiter the tokenizer produces a
  row with at least one field, and so does \<open>NextRow\<close> for every non-skippable line. The
  code: a row that is returned has at least one field (\<open>tokenizer_row_nonempty\<close>), and one
  is returned for every line without CR and LF (\<open>tokenizer_total_without_eol\<close>); but on
  the file whose only line is \<open>a,b,c,d,e,f,g,"h"\<close>, a CR, \<open>i\<close> and the LF, \<open>NextRow\<close>
  stores a ninth pointer into the array of eight.
\<close>

theorem next_row_writes_past_end:
  "csv_parser_row always
     (single_file ''data.csv'' (''a,b,c,d,e,f,g,'' @ [DQUOTE, CHR ''h'', DQUOTE, CR, CHR ''i'', LF]))
     (csv_parser_init always (Some ''data.csv'') (Some '','') False)
   = Inl Write_past_end"
  by (simp add: tok_defs drv_defs)

text \<open>
  C3. In \<open>ST_QUOTE_IN_QUOTED\<close> a byte that is neither the quote, the delimiter, CR, LF
  nor NUL ends the quoted field: the buffer is emitted as the next field and cleared, the
  loop goes round without advancing, and the same byte is then handled in \<open>ST_FIELD\<close>,
  where it starts the next field. With the comma as delimiter the line
  \<open>"hello"world,next\<close> gives the fields \<open>hello\<close>, \<open>world\<close>, \<open>next\<close>.
\<close>

theorem qesc_other_reprocessed:
  assumes "grants_all avail" and "in_bounds s" and "state s = ST_QUOTE_IN_QUOTED"
    and "c \<noteq> DQUOTE" and "c \<noteq> d" and "c \<noteq> CR" and "c \<noteq> LF" and "c \<noteq> NUL"
  shows "(\<exists>s'. scan_step avail d c s = Continue s'
            \<and> state s' = ST_FIELD
            \<and> fields_arr s' = fields_arr s @ [strdup avail (buf s)]
            \<and> buf s' = []
            \<and> scan_loop avail d (c # cs) s = scan_loop avail d (c # cs) s'
            \<and> (\<exists>s''. scan_step avail d c s' = Step_on s'' \<and> state s'' = ST_FIELD
                   \<and> buf s'' = [c] \<and> fields_arr s'' = fields_arr s'
                   \<and> scan_loop avail d (c # cs) s = scan_loop avail d cs s''))
         \<and> s_parse_line_to_row always
               ([DQUOTE] @ ''hello'' @ [DQUOTE] @ ''world,next'') COMMA
             = Inr (Some \<lparr>row_fields = [Some ''hello'', Some ''world'', Some ''next''],
                          num_fields = 3\<rparr>)"
proof -
  from emit_field_granted [OF assms(1,2)] obtain s1 where
    s1: "emit_field avail s = Inr (Some s1)" "in_bounds s1"
      "fields_arr s1 = fields_arr s @ [strdup avail (buf s)]" "buf s1 = []"
    by blast
  let ?s' = "s1\<lparr>state := ST_FIELD\<rparr>"
  have step: "scan_step avail d c s = Continue ?s'"
    using assms(3-8) s1(1) by (simp add: scan_step_def on_success_def)
  have b': "in_bounds ?s'"
    using s1(2) by (simp add: in_bounds_def)
  from append_byte_granted [OF assms(1) b', of c] obtain s2 where
    s2: "append_byte avail c ?s' = Inr (Some s2)" "state s2 = state ?s'"
      "fields_arr s2 = fields_arr ?s'" "buf s2 = buf ?s' @ [c]"
    by blast
  have step2: "scan_step avail d c ?s' = Step_on s2"
    using assms(4-8) s2(1) by (simp add: scan_step_def on_success_def)
  have loop1: "scan_loop avail d (c # cs) s = scan_loop avail d (c # cs) ?s'"
    using step assms(8) by simp
  have loop2: "scan_loop avail d (c # cs) ?s' = scan_loop avail d cs s2"
    using step2 assms(8) by simp
  have general: "\<exists>s'. scan_step avail d c s = Continue s'
            \<and> state s' = ST_FIELD
            \<and> fields_arr s' = fields_arr s @ [strdup avail (buf s)]
            \<and> buf s' = []
            \<and> scan_loop avail d (c # cs) s = scan_loop avail d (c # cs) s'
            \<and> (\<exists>s''. scan_step avail d c s' = Step_on s'' \<and> state s'' = ST_FIELD
                   \<and> buf s'' = [c] \<and> fields_arr s'' = fields_arr s'
                   \<and> scan_loop avail d (c # cs) s = scan_loop avail d cs s'')"
    using step step2 loop1 loop2 s1(3,4) s2(2,3,4)
    by (intro exI [of _ ?s'] conjI exI [of _ s2]) simp_all
  have example: "s_parse_line_to_row always
               ([DQUOTE] @ ''hello'' @ [DQUOTE] @ ''world,next'') COMMA
             = Inr (Some \<lparr>row_fields = [Some ''hello'', Some ''world'', Some ''next''],
                          num_fields = 3\<rparr>)"
    by (simp add: tok_defs)
  from general example show ?thesis by blast
qed

text \<open>
  The theorem at the byte \<open>w\<close> of \<open>"hello"world,next\<close>: the scanner has just read the
  closing quote and holds \<open>hello\<close> in its buffer.
\<close>

theorem qesc_other_reprocessed_witness:
  "(\<exists>s'. scan_step always COMMA (CHR ''w'')
            \<lparr>state = ST_QUOTE_IN_QUOTED, fields_arr = [], fields_cap = 8,
             buf = ''hello'', buf_cap = 128\<rparr> = Continue s'
        \<and> state s' = ST_FIELD \<and> fields_arr s' = [Some ''hello''] \<and> buf s' = []
        \<and> (\<exists>s''. scan_step always COMMA (CHR ''w'') s' = Step_on s'' \<and> state s'' = ST_FIELD
               \<and> buf s'' = ''w'' \<and> fields_arr s'' = [Some ''hello'']))
   \<and> s_parse_line_to_row always ([DQUOTE] @ ''hello'' @ [DQUOTE] @ ''world,next'') COMMA
       = Inr (Some \<lparr>row_fields = [Some ''hello'', Some ''world'', Some ''next''],
                    num_fields = 3\<rparr>)"
proof -
  let ?s = "\<lparr>state = ST_QUOTE_IN_QUOTED, fields_arr = [], fields_cap = 8,
             buf = ''hello'', buf_cap = 128\<rparr>"
  have b: "in_bounds ?s" by (simp add: in_bounds_def)
  have q: "state ?s = ST_QUOTE_IN_QUOTED" by simp
  have c: "CHR ''w'' \<noteq> DQUOTE" "CHR ''w'' \<noteq> COMMA" "CHR ''w'' \<noteq> CR" "CHR ''w'' \<noteq> LF"
    "CHR ''w'' \<noteq> NUL" by simp_all
  have d: "strdup always ''hello'' = Some ''hello''"
    by (simp add: strdup_def strlen_def always_def)
  from qesc_other_reprocessed [OF grants_all_always b q c, of "''orld,next''"] d
  show ?thesis by auto
qed

text \<open>
  C4. The specification: the tokenizer succeeds on every line, and a line that ends
  inside a quoted field gives what follows the opening quote as its last field. The
  code: the second part holds (\<open>unterminated_quote_lenient\<close>), and the tokenizer
  succeeds on every line without CR and LF (\<open>tokenizer_total_without_eol\<close>). It does
  not on \<open>a,b,c,d,e,f,g,"h"\<close> followed by a CR and \<open>i\<close>: at the CR the eighth field is
  pushed with no capacity check, and the push after the loop stores a ninth pointer
  into the array of eight.
\<close>

theorem tokenizer_writes_past_end:
  "s_parse_line_to_row always (''a,b,c,d,e,f,g,'' @ [DQUOTE, CHR ''h'', DQUOTE, CR, CHR ''i'']) COMMA
     = Inl Write_past_end"
  by (simp add: tok_defs)

text \<open>
  C5. \<open>csv_parser_init\<close> returns a parser exactly when the allocation of the struct is
  granted, and in every parser it returns the delimiter is resolved from the first byte
  of the configuration string alone: a comma when the string is absent, empty, or starts
  with LF, CR, a double quote or NUL, and that first byte otherwise. The delimiter of a
  parser is therefore never LF, CR, a double quote or NUL.
\<close>

theorem delimiter_resolution:
  "((\<exists>ps. csv_parser_init avail name dl hh = Some ps) = avail sizeof_csv_parser)
   \<and> (csv_parser_init avail name dl hh = Some ps \<longrightarrow>
        delim ps = spec_delimiter dl
        \<and> delim ps \<notin> {LF, CR, DQUOTE, NUL}
        \<and> (\<forall>c rest. dl = Some (c # rest) \<longrightarrow>
              csv_parser_init avail name (Some [c]) hh = Some ps))"
proof -
  have ex: "(\<exists>ps. csv_parser_init avail name dl hh = Some ps) = avail sizeof_csv_parser"
    by (simp add: csv_parser_init_def)
  have res: "csv_parser_init avail name dl hh = Some ps \<longrightarrow>
        delim ps = spec_delimiter dl
        \<and> delim ps \<notin> {LF, CR, DQUOTE, NUL}
        \<and> (\<forall>c rest. dl = Some (c # rest) \<longrightarrow>
              csv_parser_init avail name (Some [c]) hh = Some ps)"
    by (auto simp: csv_parser_init_def spec_delimiter_def deref_def
          split: if_splits option.splits list.splits)
  from ex res show ?thesis by blast
qed

text \<open>
  The theorem at the configuration string that holds a single LF, which resolves to the
  comma, and at \<open>;x\<close>, which resolves to the semicolon as \<open>;\<close> alone does; and at an
  allocator that refuses the 40 bytes of the struct, where no parser is returned.
\<close>

theorem delimiter_resolution_witness:
  "csv_parser_init always (Some ''data.csv'') (Some [LF]) True
     = Some \<lparr>fp = None, filename = Some ''data.csv'', delim = COMMA, has_header = True,
              line_no = 0, header = None\<rparr>
   \<and> csv_parser_init always (Some ''data.csv'') (Some '';x'') True
     = Some \<lparr>fp = None, filename = Some ''data.csv'', delim = CHR '';'', has_header = True,
              line_no = 0, header = None\<rparr>
   \<and> csv_parser_init always (Some ''data.csv'') (Some '';'') True
     = Some \<lparr>fp = None, filename = Some ''data.csv'', delim = CHR '';'', has_header = True,
              line_no = 0, header = None\<rparr>
   \<and> spec_delimiter (Some [LF]) = COMMA
   \<and> spec_delimiter (Some '';x'') = CHR '';''
   \<and> csv_parser_init (\<lambda>n. n \<noteq> 40) (Some ''data.csv'') (Some '';x'') True = None"
proof -
  let ?p1 = "\<lparr>fp = None, filename = Some ''data.csv'', delim = COMMA, has_header = True,
              line_no = 0, header = None\<rparr>"
  let ?p2 = "\<lparr>fp = None, filename = Some ''data.csv'', delim = CHR '';'', has_header = True,
              line_no = 0, header = None\<rparr>"
  have i1: "csv_parser_init always (Some ''data.csv'') (Some [LF]) True = Some ?p1"
    by (simp add: tok_defs drv_defs)
  have i2: "csv_parser_init always (Some ''data.csv'') (Some '';x'') True = Some ?p2"
    by (simp add: tok_defs drv_defs)
  have no: "\<not> (\<lambda>n. n \<noteq> (40::nat)) sizeof_csv_parser"
    by (simp add: sizeof_csv_parser_def)
  from delimiter_resolution [of always "Some ''data.csv''" "Some [LF]" True ?p1] i1
  have a: "delim ?p1 = spec_delimiter (Some [LF])" by blast
  from delimiter_resolution [of always "Some ''data.csv''" "Some '';x''" True ?p2] i2
  have b: "delim ?p2 = spec_delimiter (Some '';x'')"
    and c: "csv_parser_init always (Some ''data.csv'') (Some '';'') True = Some ?p2"
    by blast+
  from delimiter_resolution [of "\<lambda>n. n \<noteq> 40" "Some ''data.csv''" "Some '';x''" True ?p2] no
  have d: "csv_parser_init (\<lambda>n. n \<noteq> 40) (Some ''data.csv'') (Some '';x'') True = None"
    by (cases "csv_parser_init (\<lambda>n. n \<noteq> 40) (Some ''data.csv'') (Some '';x'') True") auto
  from i1 i2 a b c d show ?thesis by simp
qed

text \<open>
  C6. The specification: on a line with no double quote the tokenizer gives the fields
  that splitting the line on the delimiter gives. The code stops at the first CR or LF of
  the line, so this holds for the lines that hold no double quote, CR or LF (and no NUL,
  which ends a C string): with every allocation granted, the tokenizer returns the row of
  the fields of \<open>naive_split\<close>, for every delimiter byte.
\<close>

theorem tokenize_unquoted_eq_split:
  assumes "grants_all avail"
    and "DQUOTE \<notin> set line" and "CR \<notin> set line" and "LF \<notin> set line" and "NUL \<notin> set line"
  shows "s_parse_line_to_row avail line d =
           Inr (Some \<lparr>row_fields = map Some (naive_split d line),
                      num_fields = length (naive_split d line)\<rparr>)"
proof -
  let ?s0 = "\<lparr>state = ST_FIELD, fields_arr = [], fields_cap = 8, buf = [], buf_cap = 128\<rparr>"
  have "\<exists>s'. scan_loop avail d line ?s0 = Inr (Some s') \<and> in_bounds s' \<and> NUL \<notin> set (buf s')
        \<and> fields_arr s' @ [Some (buf s')] = fields_arr ?s0 @ map Some (naive_split d (buf ?s0 @ line))"
    using assms by (intro scan_unquoted) (simp_all add: in_bounds_def)
  then obtain s' where s': "scan_loop avail d line ?s0 = Inr (Some s')" "in_bounds s'"
      "NUL \<notin> set (buf s')" "fields_arr s' @ [Some (buf s')] = map Some (naive_split d line)"
    by auto
  have dup: "strdup avail (buf s') = Some (buf s')"
    using assms(1) s'(3) by (rule strdup_no_NUL)
  have push: "push_field avail s' = Inr (s'\<lparr>fields_arr := map Some (naive_split d line), buf := []\<rparr>)"
    using s'(2,4) dup by (simp add: push_field_def in_bounds_def)
  show ?thesis
    using assms(1) s'(1) push by (simp add: s_parse_line_to_row_def grants_all_def)
qed

theorem tokenize_unquoted_eq_split_witness:
  "s_parse_line_to_row always ''a,b,,c d,'' COMMA =
     Inr (Some \<lparr>row_fields = [Some ''a'', Some ''b'', Some [], Some ''c d'', Some []],
                num_fields = 5\<rparr>)"
  using tokenize_unquoted_eq_split [OF grants_all_always, of "''a,b,,c d,''" COMMA]
  by simp

text \<open>
  The line \<open>a\<close>, CR, \<open>b,c\<close> holds no double quote. Splitting it on the comma gives two
  fields; the tokenizer gives the one field \<open>a\<close>.
\<close>

theorem tokenize_unquoted_CR_counterexample:
  "DQUOTE \<notin> set [CHR ''a'', CR, CHR ''b'', COMMA, CHR ''c'']
   \<and> naive_split COMMA [CHR ''a'', CR, CHR ''b'', COMMA, CHR ''c'']
       = [[CHR ''a'', CR, CHR ''b''], ''c'']
   \<and> s_parse_line_to_row always [CHR ''a'', CR, CHR ''b'', COMMA, CHR ''c''] COMMA
       = Inr (Some \<lparr>row_fields = [Some ''a''], num_fields = 1\<rparr>)
   \<and> s_parse_line_to_row always [CHR ''a'', CR, CHR ''b'', COMMA, CHR ''c''] COMMA
       \<noteq> Inr (Some \<lparr>row_fields =
                       map Some (naive_split COMMA [CHR ''a'', CR, CHR ''b'', COMMA, CHR ''c'']),
                     num_fields =
                       length (naive_split COMMA [CHR ''a'', CR, CHR ''b'', COMMA, CHR ''c''])\<rparr>)"
  by (simp add: tok_defs)

text \<open>
  C7. \<open>line_no\<close> is 0 in a parser fresh from \<open>csv_parser_init\<close>. No call lowers it, and a
  call raises it by the number of physical lines it takes from the input, skipped lines
  included: the counter and the number of physical lines still unread always add up to
  the same sum. When the consumer's loop has run to its end on a file that could be
  opened, with every allocation granted, nothing is left unread and \<open>line_no\<close> is the
  number of physical lines of the file.
\<close>

theorem line_no_counts_physical_lines:
  assumes "grants_all avail"
    and "csv_parser_init avail name dl hh = Some ps0"
    and "fopen fs (filename ps0) = Some content"
  shows "line_no ps0 = 0
       \<and> (s_read_next_non_skippable_line (Some b) n = Inr (l, Some b', n') \<longrightarrow>
            n \<le> n' \<and> n' + count_lines b' = n + count_lines b)
       \<and> (header_at avail ps = Inr (h, ps1) \<longrightarrow> line_no ps \<le> line_no ps1)
       \<and> (row_at avail fs ps = Inr (r, ps2) \<longrightarrow>
            line_no ps \<le> line_no ps2
            \<and> line_no ps2 + count_lines (unread fs ps2) = line_no ps + count_lines (unread fs ps))
       \<and> (drain avail fs ps0 = Inr (rows, ps') \<longrightarrow>
            line_no ps' = count_lines content \<and> unread fs ps' = [])"
proof -
  have init: "line_no ps0 = 0" "fp ps0 = None"
    using assms(2) by (auto simp: csv_parser_init_def split: if_splits)
  have read: "s_read_next_non_skippable_line (Some b) n = Inr (l, Some b', n') \<longrightarrow>
            n \<le> n' \<and> n' + count_lines b' = n + count_lines b"
    using sread_account [of "Some b" b n] by auto
  have head: "header_at avail ps = Inr (h, ps1) \<longrightarrow> line_no ps \<le> line_no ps1"
  proof
    assume a: "header_at avail ps = Inr (h, ps1)"
    show "line_no ps \<le> line_no ps1"
    proof (cases "fp ps")
      case None
      have "s_read_next_non_skippable_line None (line_no ps) = Inl Null_stream"
        by (subst s_read_next_non_skippable_line.simps) (simp add: getline_def)
      with a None show ?thesis
        by (auto simp: header_at_def split: if_splits)
    next
      case (Some b0)
      from header_at_open [OF Some a] show ?thesis by blast
    qed
  qed
  have row: "row_at avail fs ps = Inr (r, ps2) \<longrightarrow>
            line_no ps \<le> line_no ps2
            \<and> line_no ps2 + count_lines (unread fs ps2) = line_no ps + count_lines (unread fs ps)"
    using row_at_facts [of avail fs ps r ps2] by blast
  have loop: "drain avail fs ps0 = Inr (rows, ps') \<longrightarrow>
            line_no ps' = count_lines content \<and> unread fs ps' = []"
  proof
    assume "drain avail fs ps0 = Inr (rows, ps')"
    from drain_account [OF assms(1) this] init assms(3)
    show "line_no ps' = count_lines content \<and> unread fs ps' = []"
      by (simp add: unread_def)
  qed
  from init(1) read head row loop show ?thesis by blast
qed

text \<open>
  The theorem on a file of six physical lines, two comments and a blank line among
  them, with CRLF line ends: the loop returns the two data rows and leaves \<open>line_no\<close>
  at 6.
\<close>

theorem line_no_counts_physical_lines_witness:
  "drain always
     (single_file ''data.csv''
        (''# comment'' @ [CR, LF] @ [CR, LF] @ ''x,y'' @ [CR, LF] @ ''1,2'' @ [CR, LF]
         @ ''# trailing'' @ [CR, LF] @ ''3,4'' @ [CR, LF]))
     \<lparr>fp = None, filename = Some ''data.csv'', delim = COMMA, has_header = True,
      line_no = 0, header = None\<rparr>
   = Inr ([\<lparr>row_fields = [Some ''1'', Some ''2''], num_fields = 2\<rparr>,
           \<lparr>row_fields = [Some ''3'', Some ''4''], num_fields = 2\<rparr>],
          \<lparr>fp = Some [], filename = Some ''data.csv'', delim = COMMA, has_header = True,
           line_no = 6,
           header = Some \<lparr>row_fields = [Some ''x'', Some ''y''], num_fields = 2\<rparr>\<rparr>)
   \<and> count_lines
       (''# comment'' @ [CR, LF] @ [CR, LF] @ ''x,y'' @ [CR, LF] @ ''1,2'' @ [CR, LF]
        @ ''# trailing'' @ [CR, LF] @ ''3,4'' @ [CR, LF]) = 6"
proof -
  let ?content = "''# comment'' @ [CR, LF] @ [CR, LF] @ ''x,y'' @ [CR, LF] @ ''1,2'' @ [CR, LF]
         @ ''# trailing'' @ [CR, LF] @ ''3,4'' @ [CR, LF]"
  let ?fs = "single_file ''data.csv'' ?content"
  let ?ps0 = "\<lparr>fp = None, filename = Some ''data.csv'', delim = COMMA, has_header = True,
      line_no = 0, header = None\<rparr>"
  let ?rows = "[\<lparr>row_fields = [Some ''1'', Some ''2''], num_fields = 2\<rparr>,
           \<lparr>row_fields = [Some ''3'', Some ''4''], num_fields = 2\<rparr>]"
  let ?ps' = "\<lparr>fp = Some [], filename = Some ''data.csv'', delim = COMMA, has_header = True,
           line_no = 6,
           header = Some \<lparr>row_fields = [Some ''x'', Some ''y''], num_fields = 2\<rparr>\<rparr>"
  have i: "csv_parser_init always (Some ''data.csv'') (Some '','') True = Some ?ps0"
    by (simp add: tok_defs drv_defs)
  have f: "fopen ?fs (filename ?ps0) = Some ?content"
    by (simp add: fopen_def single_file_def)
  have d: "drain always ?fs ?ps0 = Inr (?rows, ?ps')"
    by (simp add: tok_defs drv_defs)
  from line_no_counts_physical_lines [OF grants_all_always i f, of _ _ _ _ _ _ _ _ _ _ ?rows ?ps'] d
  have "line_no ?ps' = count_lines ?content" by blast
  with d show ?thesis by simp
qed

text \<open>
  C8. In \<open>ST_FIELD\<close> a double quote opens a quoted field only when the buffer of the
  field is empty; after field content it is appended to the field as a literal byte.
\<close>

theorem field_quote_opens_only_at_start:
  assumes "grants_all avail" and "in_bounds s" and "state s = ST_FIELD" and "d \<noteq> DQUOTE"
  shows "(buf s = [] \<longrightarrow> scan_step avail d DQUOTE s = Step_on (s\<lparr>state := ST_QUOTED_FIELD\<rparr>))
       \<and> (buf s \<noteq> [] \<longrightarrow>
            (\<exists>s'. scan_step avail d DQUOTE s = Step_on s' \<and> state s' = ST_FIELD
                 \<and> buf s' = buf s @ [DQUOTE] \<and> fields_arr s' = fields_arr s))"
proof -
  from append_byte_granted [OF assms(1,2), of DQUOTE] obtain s1 where
    s1: "append_byte avail DQUOTE s = Inr (Some s1)" "state s1 = state s"
      "fields_arr s1 = fields_arr s" "buf s1 = buf s @ [DQUOTE]"
    by blast
  have "buf s \<noteq> [] \<Longrightarrow> scan_step avail d DQUOTE s = Step_on s1"
    using assms(3,4) s1(1) by (simp add: scan_step_def on_success_def)
  moreover have "buf s = [] \<Longrightarrow> scan_step avail d DQUOTE s = Step_on (s\<lparr>state := ST_QUOTED_FIELD\<rparr>)"
    using assms(3,4) by (simp add: scan_step_def)
  ultimately show ?thesis
    using s1(2,3,4) assms(3) by auto
qed

text \<open>
  The theorem at the start of a field and after the two bytes \<open>ab\<close>, and the line
  \<open>ab"c,"d"\<close> as a whole: its first quote is a byte of the first field, its second
  opens the second field.
\<close>

theorem field_quote_opens_only_at_start_witness:
  "scan_step always COMMA DQUOTE
       \<lparr>state = ST_FIELD, fields_arr = [], fields_cap = 8, buf = [], buf_cap = 128\<rparr>
     = Step_on \<lparr>state = ST_QUOTED_FIELD, fields_arr = [], fields_cap = 8, buf = [], buf_cap = 128\<rparr>
   \<and> (\<exists>s'. scan_step always COMMA DQUOTE
              \<lparr>state = ST_FIELD, fields_arr = [], fields_cap = 8, buf = ''ab'', buf_cap = 128\<rparr>
            = Step_on s'
          \<and> state s' = ST_FIELD \<and> buf s' = [CHR ''a'', CHR ''b'', DQUOTE] \<and> fields_arr s' = [])
   \<and> s_parse_line_to_row always (''ab'' @ [DQUOTE] @ ''c,'' @ [DQUOTE, CHR ''d'', DQUOTE]) COMMA
       = Inr (Some \<lparr>row_fields = [Some [CHR ''a'', CHR ''b'', DQUOTE, CHR ''c''], Some ''d''],
                    num_fields = 2\<rparr>)"
proof -
  let ?s0 = "\<lparr>state = ST_FIELD, fields_arr = [], fields_cap = 8, buf = [], buf_cap = 128\<rparr>"
  let ?s1 = "\<lparr>state = ST_FIELD, fields_arr = [], fields_cap = 8, buf = ''ab'', buf_cap = 128\<rparr>"
  have b: "in_bounds ?s0" "in_bounds ?s1" by (simp_all add: in_bounds_def)
  have q: "state ?s0 = ST_FIELD" "state ?s1 = ST_FIELD" by simp_all
  have d: "COMMA \<noteq> DQUOTE" by simp
  have e: "s_parse_line_to_row always (''ab'' @ [DQUOTE] @ ''c,'' @ [DQUOTE, CHR ''d'', DQUOTE]) COMMA
       = Inr (Some \<lparr>row_fields = [Some [CHR ''a'', CHR ''b'', DQUOTE, CHR ''c''], Some ''d''],
                    num_fields = 2\<rparr>)"
    by (simp add: tok_defs)
  from field_quote_opens_only_at_start [OF grants_all_always b(1) q(1) d]
    field_quote_opens_only_at_start [OF grants_all_always b(2) q(2) d] e
  show ?thesis by simp
qed

text \<open>
  C9. The scan loop terminates on every line: an iteration either advances the cursor,
  leaves the loop, or is the \<open>continue\<close> that keeps the cursor; the \<open>continue\<close> is taken
  only in \<open>ST_QUOTE_IN_QUOTED\<close> and leaves the scanner in \<open>ST_FIELD\<close>, where no
  iteration keeps the cursor. So the loop tests its condition at most twice for each byte
  of the line and once at its end: with that budget \<open>scan_fuel\<close> gives the result of
  \<open>scan_loop\<close>.
\<close>

theorem scan_loop_terminates:
  "scan_fuel (2 * length line + 2) avail d line s = Some (scan_loop avail d line s)
   \<and> (state s = ST_FIELD \<longrightarrow> scan_step avail d c s \<noteq> Continue s')
   \<and> (scan_step avail d c s = Continue s' \<longrightarrow>
        state s = ST_QUOTE_IN_QUOTED \<and> state s' = ST_FIELD)"
proof -
  have "scan_fuel (2 * length line + 2) avail d line s = Some (scan_loop avail d line s)"
    by (rule scan_fuel_enough) simp
  moreover have "scan_step avail d c s = Continue s' \<longrightarrow>
        state s = ST_QUOTE_IN_QUOTED \<and> state s' = ST_FIELD"
    by (auto dest: scan_step_Continue)
  ultimately show ?thesis by auto
qed

text \<open>
  The theorem on the line \<open>"a"b\<close>, whose last byte is read twice: ten tests of the
  loop condition are enough, and the \<open>continue\<close> at \<open>b\<close> goes from
  \<open>ST_QUOTE_IN_QUOTED\<close> to \<open>ST_FIELD\<close>.
\<close>

theorem scan_loop_terminates_witness:
  "scan_fuel 10 always COMMA [DQUOTE, CHR ''a'', DQUOTE, CHR ''b'']
       \<lparr>state = ST_FIELD, fields_arr = [], fields_cap = 8, buf = [], buf_cap = 128\<rparr>
     = Some (Inr (Some \<lparr>state = ST_FIELD, fields_arr = [Some ''a''], fields_cap = 8,
                        buf = ''b'', buf_cap = 128\<rparr>))
   \<and> scan_step always COMMA (CHR ''b'')
       \<lparr>state = ST_QUOTE_IN_QUOTED, fields_arr = [], fields_cap = 8, buf = ''a'', buf_cap = 128\<rparr>
     = Continue \<lparr>state = ST_FIELD, fields_arr = [Some ''a''], fields_cap = 8,
                 buf = [], buf_cap = 128\<rparr>
   \<and> scan_step always COMMA (CHR ''b'')
       \<lparr>state = ST_FIELD, fields_arr = [Some ''a''], fields_cap = 8, buf = [], buf_cap = 128\<rparr>
     \<noteq> Continue \<lparr>state = ST_FIELD, fields_arr = [Some ''a''], fields_cap = 8,
                 buf = [], buf_cap = 128\<rparr>"
proof -
  let ?s0 = "\<lparr>state = ST_FIELD, fields_arr = [], fields_cap = 8, buf = [], buf_cap = 128\<rparr>"
  let ?sf = "\<lparr>state = ST_FIELD, fields_arr = [Some ''a''], fields_cap = 8, buf = [], buf_cap = 128\<rparr>"
  have run: "scan_loop always COMMA [DQUOTE, CHR ''a'', DQUOTE, CHR ''b''] ?s0
      = Inr (Some \<lparr>state = ST_FIELD, fields_arr = [Some ''a''], fields_cap = 8,
                        buf = ''b'', buf_cap = 128\<rparr>)"
    by (simp add: tok_defs)
  have step: "scan_step always COMMA (CHR ''b'')
       \<lparr>state = ST_QUOTE_IN_QUOTED, fields_arr = [], fields_cap = 8, buf = ''a'', buf_cap = 128\<rparr>
     = Continue ?sf"
    by (simp add: tok_defs)
  from scan_loop_terminates [of "[DQUOTE, CHR ''a'', DQUOTE, CHR ''b'']" always COMMA ?s0 "CHR ''b''" ?sf]
    scan_loop_terminates [of "[]" always COMMA ?sf "CHR ''b''" ?sf]
    run step
  show ?thesis by simp
qed

text \<open>
  C10. The public operations accept a null pointer: \<open>csv_parser_header\<close> and
  \<open>csv_parser_row\<close> return \<open>NULL\<close> and touch nothing, \<open>csv_parser_destroy\<close> and
  \<open>csv_parser_destroy_row\<close> release nothing, and \<open>csv_parser_init\<close> with a null path
  and a null delimiter string returns a parser with no file name and the comma.
\<close>

theorem null_arguments_tolerated:
  "csv_parser_header avail None = Inr (None, None)
   \<and> csv_parser_row avail fs None = Inr (None, None)
   \<and> csv_parser_destroy None = []
   \<and> csv_parser_destroy_row None = []
   \<and> csv_parser_init always None None hh
       = Some \<lparr>fp = None, filename = None, delim = COMMA, has_header = hh,
                line_no = 0, header = None\<rparr>"
  by (simp add: csv_parser_header_def csv_parser_row_def csv_parser_destroy_def
        csv_parser_destroy_row_def csv_parser_init_def always_def)

end
